theory Spec2Isabelle
  imports Main "HOL-Library.Sublist"
begin

section \<open>Strings and the library calls of the source\<close>

text \<open>
  A Python \<open>str\<close> is modelled as a \<open>string\<close>, a list of 8-bit characters read as the
  code points 0 to 255; a string with a code point above 255 is outside the model. On the
  code points of the model the Unicode classes used by the source are: decimal digits
  (\<open>\d\<close>) are \<open>0\<close> to \<open>9\<close>; whitespace (\<open>str.split()\<close>) is 9 to 13, 28 to 32, 133
  and 160; \<open>str.lower()\<close> moves \<open>A\<close> to \<open>Z\<close> and 192 to 222 (without 215) up by 32.
  Above 255 Python knows further decimal digits, whitespace and cased letters: \<open>\d\<close>,
  for one, also matches the Arabic-Indic digits. Every statement below about "every
  string" is a statement about the strings of the model.
\<close>

datatype exn = ValueError | KeyError | IndexError

definition isdigit :: "char \<Rightarrow> bool" where
  "isdigit c = (48 \<le> (of_char c :: nat) \<and> (of_char c :: nat) \<le> 57)"

definition isspace :: "char \<Rightarrow> bool" where
  "isspace c = (let n = (of_char c :: nat) in
     (9 \<le> n \<and> n \<le> 13) \<or> (28 \<le> n \<and> n \<le> 32) \<or> n = 133 \<or> n = 160)"

definition lower_char :: "char \<Rightarrow> char" where
  "lower_char c = (let n = (of_char c :: nat) in
     if (65 \<le> n \<and> n \<le> 90) \<or> (192 \<le> n \<and> n \<le> 222 \<and> n \<noteq> 215)
     then char_of (n + 32) else c)"

definition lower :: "string \<Rightarrow> string" where
  "lower s = map lower_char s"

text \<open>\<open>s.startswith(k)\<close>\<close>

definition startswith :: "string \<Rightarrow> string \<Rightarrow> bool" where
  "startswith s k = (take (length k) s = k)"

text \<open>\<open>s.split()\<close>: the maximal runs of non-whitespace characters, in order.\<close>

fun split_acc :: "string \<Rightarrow> string \<Rightarrow> string list" where
  "split_acc cur [] = (if cur = [] then [] else [cur])"
| "split_acc cur (c # cs) =
     (if isspace c then (if cur = [] then split_acc [] cs else cur # split_acc [] cs)
      else split_acc (cur @ [c]) cs)"

definition split :: "string \<Rightarrow> string list" where
  "split s = split_acc [] s"

text \<open>\<open>sep.join(xs)\<close>\<close>

fun join :: "string \<Rightarrow> string list \<Rightarrow> string" where
  "join sep [] = []"
| "join sep [x] = x"
| "join sep (x # y # ys) = x @ sep @ join sep (y # ys)"

subsection \<open>Regular expressions: \<open>re.match\<close>\<close>

text \<open>
  The fragment of Python's \<open>re\<close> that the source uses. A cursor is the position in the
  subject and the text still to read. \<open>rmatch r c\<close> lists, in the order the backtracking
  matcher tries them, the cursors at which a match of \<open>r\<close> begun at \<open>c\<close> can end; greedy
  operators list the longer matches first. \<open>$\<close> without the MULTILINE flag matches at the
  end of the subject and also just before a newline that ends the subject.
\<close>

datatype regex =
    Bol
  | Eol
  | Lit char
  | Digit
  | Opt regex
  | Rep nat nat regex
  | Seq regex regex

type_synonym cursor = "nat \<times> string"

primrec rep :: "(cursor \<Rightarrow> cursor list) \<Rightarrow> nat \<Rightarrow> nat \<Rightarrow> cursor \<Rightarrow> cursor list" where
  "rep f lo 0 c = (if lo = 0 then [c] else [])"
| "rep f lo (Suc hi) c =
     concat (map (rep f (lo - 1) hi) (f c)) @ (if lo = 0 then [c] else [])"

fun rmatch :: "regex \<Rightarrow> cursor \<Rightarrow> cursor list" where
  "rmatch Bol c = (if fst c = 0 then [c] else [])"
| "rmatch Eol c = (if snd c = [] \<or> snd c = [CHR 0x0A] then [c] else [])"
| "rmatch (Lit x) c =
     (case snd c of [] \<Rightarrow> [] | y # ys \<Rightarrow> if y = x then [(fst c + 1, ys)] else [])"
| "rmatch Digit c =
     (case snd c of [] \<Rightarrow> [] | y # ys \<Rightarrow> if isdigit y then [(fst c + 1, ys)] else [])"
| "rmatch (Opt r) c = rmatch r c @ [c]"
| "rmatch (Rep lo hi r) c = rep (\<lambda>c'. rmatch r c') lo hi c"
| "rmatch (Seq r1 r2) c = concat (map (\<lambda>c'. rmatch r2 c') (rmatch r1 c))"

text \<open>\<open>re.match(r, s)\<close> is truthy when some match of \<open>r\<close> starts at position 0.\<close>

definition re_match :: "regex \<Rightarrow> string \<Rightarrow> bool" where
  "re_match r s = (rmatch r (0, s) \<noteq> [])"

text \<open>\<^verbatim>\<open>r"^\+?\d{9,15}$"\<close>\<close>

definition phone_pattern :: regex where
  "phone_pattern = Seq Bol (Seq (Opt (Lit (CHR ''+''))) (Seq (Rep 9 15 Digit) Eol))"

section \<open>Fields\<close>

record Name =
  name_value :: string

definition Name_init :: "string \<Rightarrow> exn + Name" where
  "Name_init v = (if v = [] then Inl ValueError else Inr \<lparr>name_value = v\<rparr>)"

record Phone =
  phone_value :: string

definition Phone_validate :: "Phone \<Rightarrow> exn + unit" where
  "Phone_validate p =
     (if \<not> re_match phone_pattern (phone_value p) then Inl ValueError else Inr ())"

text \<open>
  The setter of \<open>Phone.value\<close>: it stores the new value and then validates, so the object
  returned is the object after the assignment also when validation raises.
\<close>

definition Phone_set_value :: "string \<Rightarrow> Phone \<Rightarrow> (exn + unit) \<times> Phone" where
  "Phone_set_value v p = (let p' = p\<lparr>phone_value := v\<rparr> in (Phone_validate p', p'))"

text \<open>
  \<open>Phone(v)\<close>: \<open>Field.__init__\<close> assigns through the setter. When the setter raises, the
  constructor raises and no object is returned.
\<close>

definition Phone_init :: "string \<Rightarrow> exn + Phone" where
  "Phone_init v =
     (case Phone_set_value v \<lparr>phone_value = []\<rparr> of
        (Inl e, _) \<Rightarrow> Inl e
      | (Inr _, p) \<Rightarrow> Inr p)"

definition Name_str :: "Name \<Rightarrow> string" where
  "Name_str n = ''Name: '' @ name_value n"

definition Phone_str :: "Phone \<Rightarrow> string" where
  "Phone_str p = ''Phone: '' @ phone_value p"

subsection \<open>Calendar dates (\<open>datetime.date\<close>)\<close>

text \<open>
  A date of the proleptic Gregorian calendar. The constructor raises \<open>ValueError\<close>
  outside the years 1 to 9999, the months 1 to 12 and the days of the month. Dates are
  ordered as the triples (year, month, day); the difference of two dates is the
  difference of their ordinals, the day count from 1 January of year 1.
\<close>

record date =
  year :: int
  month :: int
  day :: int

definition is_leap :: "int \<Rightarrow> bool" where
  "is_leap y = (y mod 4 = 0 \<and> (y mod 100 \<noteq> 0 \<or> y mod 400 = 0))"

definition days_in_month :: "int \<Rightarrow> int \<Rightarrow> int" where
  "days_in_month y m =
     (if m = 2 then (if is_leap y then 29 else 28)
      else if m = 4 \<or> m = 6 \<or> m = 9 \<or> m = 11 then 30 else 31)"

definition days_before_year :: "int \<Rightarrow> int" where
  "days_before_year y = (let p = y - 1 in p * 365 + p div 4 - p div 100 + p div 400)"

definition days_before_month :: "int \<Rightarrow> int \<Rightarrow> int" where
  "days_before_month y m = (\<Sum>k\<leftarrow>[1..m - 1]. days_in_month y k)"

definition valid_date :: "date \<Rightarrow> bool" where
  "valid_date t = (1 \<le> year t \<and> year t \<le> 9999 \<and> 1 \<le> month t \<and> month t \<le> 12
     \<and> 1 \<le> day t \<and> day t \<le> days_in_month (year t) (month t))"

definition datetime_date :: "int \<Rightarrow> int \<Rightarrow> int \<Rightarrow> exn + date" where
  "datetime_date y m d =
     (let t = \<lparr>year = y, month = m, day = d\<rparr>
      in if valid_date t then Inr t else Inl ValueError)"

definition toordinal :: "date \<Rightarrow> int" where
  "toordinal t = days_before_year (year t) + days_before_month (year t) (month t) + day t"

definition date_less :: "date \<Rightarrow> date \<Rightarrow> bool" where
  "date_less a b = (year a < year b \<or> (year a = year b \<and>
     (month a < month b \<or> (month a = month b \<and> day a < day b))))"

text \<open>\<open>(a - b).days\<close>\<close>

definition date_diff_days :: "date \<Rightarrow> date \<Rightarrow> int" where
  "date_diff_days a b = toordinal a - toordinal b"

subsection \<open>Birthday\<close>

text \<open>
  The stored \<open>_value\<close> of a Birthday is a date or \<open>None\<close>. \<open>days_to_birthday\<close> reads the
  clock; the current date is the argument \<open>today\<close>.
\<close>

record Birthday =
  birthday_value :: "date option"

definition days_to_birthday :: "date \<Rightarrow> Birthday \<Rightarrow> exn + int option" where
  "days_to_birthday today b =
     (case birthday_value b of
        None \<Rightarrow> Inr None
      | Some v \<Rightarrow>
          (case datetime_date (year today) (month v) (day v) of
             Inl e \<Rightarrow> Inl e
           | Inr next_birthday \<Rightarrow>
               if date_less next_birthday today then
                 (case datetime_date (year today + 1) (month v) (day v) of
                    Inl e \<Rightarrow> Inl e
                  | Inr next_birthday' \<Rightarrow> Inr (Some (date_diff_days next_birthday' today)))
               else Inr (Some (date_diff_days next_birthday today))))"

text \<open>
  \<open>strftime('%d.%m.%Y')\<close>, which the C library formats: day and month with two digits,
  the year as its decimal digits without padding, so that year 999 is printed \<open>999\<close>
  (the C library of Linux; some other platforms pad the year to four digits).
\<close>

definition digit_char :: "nat \<Rightarrow> char" where
  "digit_char n = char_of (48 + n mod 10)"

definition pad2 :: "int \<Rightarrow> string" where
  "pad2 n = [digit_char (nat n div 10), digit_char (nat n)]"

function decimal :: "nat \<Rightarrow> string" where
  "decimal n = (if n < 10 then [digit_char n] else decimal (n div 10) @ [digit_char n])"
  by pat_completeness auto
termination
  by (relation "measure (\<lambda>n. n)") auto

declare decimal.simps [simp del]

definition strftime :: "date \<Rightarrow> string" where
  "strftime t = pad2 (day t) @ ''.'' @ pad2 (month t) @ ''.'' @ decimal (nat (year t))"

text \<open>\<open>Birthday.__str__\<close>, called only when a date is stored.\<close>

definition Birthday_str :: "date \<Rightarrow> string" where
  "Birthday_str t = ''Birthday: '' @ strftime t"

section \<open>Record\<close>

record Record =
  name :: Name
  phones :: "Phone list"
  birthday :: Birthday

text \<open>\<open>Record.add_phone\<close>\<close>

definition add_phone :: "string \<Rightarrow> Record \<Rightarrow> (exn + unit) \<times> Record" where
  "add_phone ph r =
     (case Phone_init ph of
        Inl e \<Rightarrow> (Inl e, r)
      | Inr phone_obj \<Rightarrow>
          (case Phone_validate phone_obj of
             Inl e \<Rightarrow> (Inl e, r)
           | Inr _ \<Rightarrow> (Inr (), r\<lparr>phones := phones r @ [phone_obj]\<rparr>)))"

text \<open>
  \<open>Record(name, phone)\<close> with no birthday, which is how every caller in the source
  constructs a record; \<open>Birthday(None)\<close> stores no date.
\<close>

definition Record_init :: "string \<Rightarrow> string option \<Rightarrow> exn + Record" where
  "Record_init nm ph =
     (case Name_init nm of
        Inl e \<Rightarrow> Inl e
      | Inr n \<Rightarrow>
          (let r = \<lparr>name = n, phones = [], birthday = \<lparr>birthday_value = None\<rparr>\<rparr> in
           case ph of
             None \<Rightarrow> Inr r
           | Some p \<Rightarrow>
               if p = [] then Inr r
               else (case add_phone p r of
                       (Inl e, _) \<Rightarrow> Inl e
                     | (Inr _, r') \<Rightarrow> Inr r')))"

text \<open>\<open>Record.remove_phone\<close>: the loop over the phone list, leaving at the first hit.\<close>

fun remove_loop :: "string \<Rightarrow> Phone list \<Rightarrow> bool \<times> Phone list" where
  "remove_loop ph [] = (False, [])"
| "remove_loop ph (p # ps) =
     (if phone_value p = ph then (True, ps)
      else (let (found, ps') = remove_loop ph ps in (found, p # ps')))"

definition remove_phone :: "string \<Rightarrow> Record \<Rightarrow> bool \<times> Record" where
  "remove_phone ph r = (let (found, ps) = remove_loop ph (phones r) in (found, r\<lparr>phones := ps\<rparr>))"

text \<open>
  \<open>Record.edit_phone\<close>: the loop assigns through the setter of the first phone whose value
  is \<open>old_phone\<close>. The phone object is changed in place, so the list returned holds the
  object as the setter left it, also when the setter raised.
\<close>

fun edit_loop :: "string \<Rightarrow> string \<Rightarrow> Phone list \<Rightarrow> (exn + bool) \<times> Phone list" where
  "edit_loop old_phone new_phone [] = (Inr False, [])"
| "edit_loop old_phone new_phone (p # ps) =
     (if phone_value p = old_phone then
        (case Phone_set_value new_phone p of
           (Inl e, p') \<Rightarrow> (Inl e, p' # ps)
         | (Inr _, p') \<Rightarrow> (Inr True, p' # ps))
      else (let (res, ps') = edit_loop old_phone new_phone ps in (res, p # ps')))"

definition edit_phone :: "string \<Rightarrow> string \<Rightarrow> Record \<Rightarrow> (exn + bool) \<times> Record" where
  "edit_phone old_phone new_phone r =
     (let (res, ps) = edit_loop old_phone new_phone (phones r) in (res, r\<lparr>phones := ps\<rparr>))"

text \<open>\<open>Record.__str__\<close>\<close>

definition Record_str :: "Record \<Rightarrow> string" where
  "Record_str r =
     (let phones_str = join '', '' (map Phone_str (phones r));
          birthday_str = (case birthday_value (birthday r) of
                            None \<Rightarrow> []
                          | Some t \<Rightarrow> '', '' @ Birthday_str t)
      in Name_str (name r) @ '', '' @ phones_str @ birthday_str)"

section \<open>AddressBook\<close>

text \<open>
  The dictionary of the address book keeps insertion order, which the iteration and the
  printing of all contacts follow: it is a list of (key, record) pairs with distinct keys.
  Assigning to a key that is present replaces the record at its place; a new key goes to
  the end. Every record is built fresh by the command that stores it, so no two keys
  share a record object.
\<close>

type_synonym AddressBook = "(string \<times> Record) list"

fun dict_get :: "('k \<times> 'v) list \<Rightarrow> 'k \<Rightarrow> 'v option" where
  "dict_get [] k = None"
| "dict_get ((k', v) # kvs) k = (if k' = k then Some v else dict_get kvs k)"

fun dict_set :: "'k \<Rightarrow> 'v \<Rightarrow> ('k \<times> 'v) list \<Rightarrow> ('k \<times> 'v) list" where
  "dict_set k v [] = [(k, v)]"
| "dict_set k v ((k', v') # kvs) =
     (if k' = k then (k, v) # kvs else (k', v') # dict_set k v kvs)"

definition dict_values :: "('k \<times> 'v) list \<Rightarrow> 'v list" where
  "dict_values kvs = map snd kvs"

definition add_record :: "Record \<Rightarrow> AddressBook \<Rightarrow> AddressBook" where
  "add_record r book = dict_set (name_value (name r)) r book"

text \<open>
  \<open>AddressBook.iterator(N)\<close>: the batches the generator yields, in order.
  \<open>range(0, len(records), N)\<close> raises \<open>ValueError\<close> for \<open>N = 0\<close> and is empty for a
  negative \<open>N\<close>; for a positive \<open>N\<close> the loop index runs over 0, N, 2N, ... below the
  length, which \<open>batches\<close> follows by dropping \<open>N\<close> records each round.
\<close>

function batches :: "nat \<Rightarrow> 'a list \<Rightarrow> 'a list list" where
  "batches n xs = (if n = 0 \<or> xs = [] then [] else take n xs # batches n (drop n xs))"
  by pat_completeness auto
termination
  by (relation "measure (\<lambda>(n, xs). length xs)") auto

definition iterator :: "int \<Rightarrow> AddressBook \<Rightarrow> exn + string list list" where
  "iterator N book =
     (let records = dict_values book in
      if N = 0 then Inl ValueError
      else if N < 0 then Inr []
      else Inr (map (map Record_str) (batches (nat N) records)))"

section \<open>Command layer\<close>

text \<open>
  The handlers work on the module-level address book \<open>my_contacts\<close>; a handler takes the
  book and returns the book as the call left it, together with the value returned or the
  exception raised. \<open>input_error\<close> turns the three exceptions it catches into messages.
\<close>

type_synonym handler_body = "string \<Rightarrow> AddressBook \<Rightarrow> (exn + string) \<times> AddressBook"
type_synonym handler = "string \<Rightarrow> AddressBook \<Rightarrow> string \<times> AddressBook"

definition input_error :: "handler_body \<Rightarrow> handler" where
  "input_error func args book =
     (case func args book of
        (Inr s, book') \<Rightarrow> (s, book')
      | (Inl KeyError, book') \<Rightarrow> (''Contact with that name not found.'', book')
      | (Inl ValueError, book') \<Rightarrow> (''Please enter a valid command.'', book')
      | (Inl IndexError, book') \<Rightarrow>
          (''Please enter both name and phone number, separated by a space.'', book'))"

text \<open>
  Unpacking a list into three, or two, targets raises \<open>ValueError\<close> when the list has
  another length.
\<close>

fun unpack3 :: "'a list \<Rightarrow> exn + ('a \<times> 'a \<times> 'a)" where
  "unpack3 [a, b, c] = Inr (a, b, c)"
| "unpack3 _ = Inl ValueError"

fun unpack2 :: "'a list \<Rightarrow> exn + ('a \<times> 'a)" where
  "unpack2 [a, b] = Inr (a, b)"
| "unpack2 _ = Inl ValueError"

definition hello_body :: handler_body where
  "hello_body args book = (Inr ''How can I help you?'', book)"

definition add_body :: handler_body where
  "add_body args book =
     (case unpack3 (split args) of
        Inl e \<Rightarrow> (Inl e, book)
      | Inr (_, nm, ph) \<Rightarrow>
          (case Record_init nm None of
             Inl e \<Rightarrow> (Inl e, book)
           | Inr record \<Rightarrow>
               (case add_phone ph record of
                  (Inl e, _) \<Rightarrow> (Inl e, book)
                | (Inr _, record') \<Rightarrow>
                    (Inr (''Contact '' @ nm @ '' with phone '' @ ph @ '' has been added.''),
                     dict_set nm record' book))))"

text \<open>
  In \<open>change\<close> the record read from the book is the stored object: what \<open>edit_phone\<close>
  assigns is assigned in the book, whether or not it then raises.
\<close>

definition change_body :: handler_body where
  "change_body args book =
     (case unpack3 (split args) of
        Inl e \<Rightarrow> (Inl e, book)
      | Inr (_, nm, ph) \<Rightarrow>
          (case dict_get book nm of
             Some record \<Rightarrow>
               (case phones record of
                  [] \<Rightarrow> (Inl IndexError, book)
                | p0 # _ \<Rightarrow>
                    (case edit_phone (phone_value p0) ph record of
                       (Inl e, record') \<Rightarrow> (Inl e, dict_set nm record' book)
                     | (Inr _, record') \<Rightarrow>
                         (Inr (''Phone number for contact '' @ nm @ '' changed.''),
                          dict_set nm record' book)))
           | None \<Rightarrow> (Inr (''Contact with name '' @ nm @ '' not found.''), book)))"

definition phone_body :: handler_body where
  "phone_body args book =
     (case unpack2 (split args) of
        Inl e \<Rightarrow> (Inl e, book)
      | Inr (_, nm) \<Rightarrow>
          (case dict_get book nm of
             Some record \<Rightarrow>
               (Inr (''Phone number for contact '' @ nm @ '' is '' @ Record_str record @ ''.''),
                book)
           | None \<Rightarrow> (Inr (''Contact with name '' @ nm @ '' is not defined.''), book)))"

definition show_all_body :: handler_body where
  "show_all_body args book =
     (if book \<noteq> [] then
        (Inr (concat (map (\<lambda>(nm, record). Record_str record @ [CHR 0x0A]) book)), book)
      else (Inr ''You have no contacts.'', book))"

definition exit_body :: handler_body where
  "exit_body args book = (Inr ''Goodbye!'', book)"

definition hello :: handler where "hello = input_error hello_body"
definition add :: handler where "add = input_error add_body"
definition change :: handler where "change = input_error change_body"
definition phone :: handler where "phone = input_error phone_body"
definition show_all :: handler where "show_all = input_error show_all_body"
definition exit :: handler where "exit = input_error exit_body"

text \<open>
  \<open>COMMANDS\<close> maps each handler to its keyword; the dictionary is read in insertion
  order. The handlers are named by a datatype, so that the loop can compare the one it
  selected with \<open>exit\<close>.
\<close>

datatype command = Hello | Add | Change | PhoneCmd | ShowAll | Exit

fun call :: "command \<Rightarrow> handler" where
  "call Hello = hello"
| "call Add = add"
| "call Change = change"
| "call PhoneCmd = phone"
| "call ShowAll = show_all"
| "call Exit = exit"

definition COMMANDS :: "(command \<times> string) list" where
  "COMMANDS = [(Hello, ''hello''), (Add, ''add''), (Change, ''change''),
               (PhoneCmd, ''phone''), (ShowAll, ''show all''), (Exit, ''exit'')]"

text \<open>\<open>command_handler\<close>: the loop over the items of \<open>COMMANDS\<close>.\<close>

fun command_loop :: "(command \<times> string) list \<Rightarrow> string \<Rightarrow> command option \<times> string" where
  "command_loop [] text = (None, [])"
| "command_loop ((cmd, keywords) # rest) text =
     (if startswith (lower text) keywords then (Some cmd, text)
      else command_loop rest text)"

definition command_handler :: "string \<Rightarrow> command option \<times> string" where
  "command_handler text = command_loop COMMANDS text"

text \<open>
  \<open>main\<close>: the loop reads the lines of the input one by one. The result is the list of
  lines printed, the address book at the end, and how the loop ended: by the exit
  command, or by \<open>input\<close> raising at the end of the input.
\<close>

datatype ending = Exited | EndOfInput

fun main :: "string list \<Rightarrow> AddressBook \<Rightarrow> string list \<times> AddressBook \<times> ending" where
  "main [] book = ([], book, EndOfInput)"
| "main (user_input # inputs) book =
     (case command_handler user_input of
        (None, _) \<Rightarrow>
          (let (out, book', e) = main inputs book
           in (''Unknown command, try again.'' # out, book', e))
      | (Some cmd, data) \<Rightarrow>
          (let (msg, book1) = call cmd data book in
           if cmd = Exit then ([msg], book1, Exited)
           else (let (out, book', e) = main inputs book1 in (msg # out, book', e))))"

section \<open>States used in the examples\<close>

text \<open>The record that \<open>add\<close> builds: \<open>Record(name)\<close> followed by \<open>add_phone(phone)\<close>.\<close>

definition fresh_record :: "string \<Rightarrow> string \<Rightarrow> Record" where
  "fresh_record nm ph = \<lparr>name = \<lparr>name_value = nm\<rparr>, phones = [\<lparr>phone_value = ph\<rparr>],
                          birthday = \<lparr>birthday_value = None\<rparr>\<rparr>"

text \<open>
  An address book holding \<open>Record('john')\<close>, a record without phones, as
  \<open>add_record\<close> (or a loaded file) can store it.
\<close>

definition john_no_phones :: AddressBook where
  "john_no_phones = add_record \<lparr>name = \<lparr>name_value = ''john''\<rparr>, phones = [],
                                 birthday = \<lparr>birthday_value = None\<rparr>\<rparr> []"

text \<open>Five contacts, for the batches of the iterator.\<close>

definition five_contacts :: AddressBook where
  "five_contacts = [(''ann'', fresh_record ''ann'' ''1000000001''),
                    (''bob'', fresh_record ''bob'' ''1000000002''),
                    (''cat'', fresh_record ''cat'' ''1000000003''),
                    (''dan'', fresh_record ''dan'' ''1000000004''),
                    (''eve'', fresh_record ''eve'' ''1000000005'')]"

section \<open>The specification's words\<close>

text \<open>
  The phone format as the specification reads the pattern: an optional leading \<open>+\<close>,
  then 9 to 15 digits, and nothing after them.
\<close>

definition spec_phone_format :: "string \<Rightarrow> bool" where
  "spec_phone_format s =
     (let ds = (case s of [] \<Rightarrow> [] | c # t \<Rightarrow> if c = CHR ''+'' then t else s)
      in 9 \<le> length ds \<and> length ds \<le> 15 \<and> list_all isdigit ds)"

section \<open>Auxiliary predicates\<close>

text \<open>
  What is left of the phone pattern after the optional sign: between 9 and 15 digits,
  then the end of the subject or a newline that ends it. Used in the proofs only.
\<close>

definition digits_then_end :: "string \<Rightarrow> bool" where
  "digits_then_end t = (\<exists>k. 9 \<le> k \<and> k \<le> 15 \<and> k \<le> length (takeWhile isdigit t)
      \<and> (drop k t = [] \<or> drop k t = [CHR 0x0A]))"

text \<open>
  The next occurrence of the month and day of \<open>v\<close> on or after \<open>today\<close>, as the
  specification words it: this year's date unless it has already passed, else next
  year's. The properties below compare \<open>days_to_birthday\<close> with it.
\<close>

definition next_occurrence :: "date \<Rightarrow> date \<Rightarrow> date" where
  "next_occurrence today v =
     (if date_less \<lparr>year = year today, month = month v, day = day v\<rparr> today
      then \<lparr>year = year today + 1, month = month v, day = day v\<rparr>
      else \<lparr>year = year today, month = month v, day = day v\<rparr>)"

section \<open>Properties of the command layer\<close>

subsection \<open>Token counts in \<open>add\<close>\<close>

lemma unpack3_short: "length xs < 3 \<Longrightarrow> unpack3 xs = Inl ValueError"
  by (cases xs rule: unpack3.cases) auto

lemma split_acc_nonempty: "t \<in> set (split_acc cur s) \<Longrightarrow> t \<noteq> []"
  by (induction cur s rule: split_acc.induct) (auto split: if_splits)

lemma split_nonempty: "t \<in> set (split s) \<Longrightarrow> t \<noteq> []"
  unfolding split_def by (rule split_acc_nonempty)

lemma add_body_raises: "fst (add_body args book) = Inl e \<Longrightarrow> e = ValueError"
  by (auto simp: add_body_def Record_init_def Name_init_def add_phone_def Phone_init_def
      Phone_set_value_def Phone_validate_def Let_def
      split: sum.splits prod.splits if_splits elim: unpack3.elims)

text \<open>
  C10: a line with fewer than three tokens makes \<open>add\<close> return
  "Please enter a valid command."; the unpacking raises \<open>ValueError\<close>, and \<open>add\<close> never
  returns the message that \<open>input_error\<close> gives for an \<open>IndexError\<close>, on any line.
\<close>

theorem add_too_few_tokens:
  "(length (split args) < 3 \<longrightarrow>
      add_body args book = (Inl ValueError, book)
      \<and> add args book = (''Please enter a valid command.'', book))
   \<and> fst (add args book) \<noteq> ''Please enter both name and phone number, separated by a space.''"
proof
  show "length (split args) < 3 \<longrightarrow>
      add_body args book = (Inl ValueError, book)
      \<and> add args book = (''Please enter a valid command.'', book)"
    by (simp add: add_def input_error_def add_body_def unpack3_short)
next
  show "fst (add args book) \<noteq> ''Please enter both name and phone number, separated by a space.''"
  proof (cases "add_body args book")
    case (Pair res book')
    show ?thesis
    proof (cases res)
      case (Inl e)
      with Pair add_body_raises[of args book e] have "e = ValueError" by simp
      with Pair Inl show ?thesis by (simp add: add_def input_error_def)
    next
      case (Inr s)
      with Pair have "take 1 s = ''C''"
        by (auto simp: add_body_def split: sum.splits prod.splits)
      with Pair Inr show ?thesis by (auto simp: add_def input_error_def)
    qed
  qed
qed

theorem add_too_few_tokens_witness:
  "length (split ''add john'') < 3
   \<and> add_body ''add john'' [] = (Inl ValueError, [])
   \<and> add ''add john'' [] = (''Please enter a valid command.'', [])"
  using add_too_few_tokens[of "''add john''" "[]"] by (simp add: split_def isspace_def)

subsection \<open>The dictionary\<close>

lemma dict_get_set: "dict_get (dict_set k v kvs) k' = (if k' = k then Some v else dict_get kvs k')"
  by (induction kvs) auto

lemma dict_get_None_iff: "dict_get kvs k = None \<longleftrightarrow> k \<notin> fst ` set kvs"
  by (induction kvs) (force split: if_splits)+

lemma keys_dict_set:
  "map fst (dict_set k v kvs) = (if k \<in> fst ` set kvs then map fst kvs else map fst kvs @ [k])"
  by (induction kvs) (force split: if_splits)+

subsection \<open>\<open>change\<close> on a name that is absent\<close>

text \<open>
  C8: \<open>change\<close> with a name and a phone, the name not a key of the address book: the
  handler body returns (raises nothing) the not-found message, and the address book is
  the one it was given.
\<close>

theorem change_absent_name:
  "split args = [w, nm, ph] \<Longrightarrow> nm \<notin> fst ` set book \<Longrightarrow>
   change_body args book = (Inr (''Contact with name '' @ nm @ '' not found.''), book)
   \<and> change args book = (''Contact with name '' @ nm @ '' not found.'', book)"
  by (simp add: change_def input_error_def change_body_def dict_get_None_iff[symmetric])

theorem change_absent_name_witness:
  "split ''change nosuchname 123'' = [''change'', ''nosuchname'', ''123'']
   \<and> ''nosuchname'' \<notin> fst ` set ([] :: AddressBook)
   \<and> change ''change nosuchname 123'' [] = (''Contact with name nosuchname not found.'', [])"
  using change_absent_name[of "''change nosuchname 123''" "''change''" "''nosuchname''" "''123''" "[]"]
  by (simp add: split_def isspace_def)

subsection \<open>\<open>change\<close> on a record without phones\<close>

text \<open>
  C4, as stated, fails: on the address book holding john without phones,
  \<open>change john 1234567890\<close> raises \<open>IndexError\<close> in the handler body and does not return
  the confirmation message.
\<close>

theorem change_empty_phones_counterexample:
  "change_body ''change john 1234567890'' john_no_phones = (Inl IndexError, john_no_phones)
   \<and> fst (change ''change john 1234567890'' john_no_phones)
       \<noteq> ''Phone number for contact john changed.''"
  by (simp add: change_def input_error_def change_body_def split_def isspace_def
      john_no_phones_def add_record_def)

text \<open>
  C4, amended: \<open>edit_phone\<close> on an empty phone list returns false and changes nothing, but
  \<open>change\<close> on an existing contact without phones does not reach it: reading the first
  phone raises \<open>IndexError\<close>, \<open>input_error\<close> returns "Please enter both name and phone
  number, separated by a space.", and the address book is unchanged.
\<close>

theorem change_empty_phones:
  "split args = [w, nm, ph] \<Longrightarrow> dict_get book nm = Some r \<Longrightarrow> phones r = [] \<Longrightarrow>
   edit_phone old_phone new_phone r = (Inr False, r)
   \<and> change_body args book = (Inl IndexError, book)
   \<and> change args book =
       (''Please enter both name and phone number, separated by a space.'', book)"
  by (simp add: change_def input_error_def change_body_def edit_phone_def)

theorem change_empty_phones_witness:
  "split ''change john 1234567890'' = [''change'', ''john'', ''1234567890'']
   \<and> dict_get john_no_phones ''john'' = Some (snd (hd john_no_phones))
   \<and> phones (snd (hd john_no_phones)) = []
   \<and> change ''change john 1234567890'' john_no_phones =
       (''Please enter both name and phone number, separated by a space.'', john_no_phones)"
  using change_empty_phones[of "''change john 1234567890''" "''change''" "''john''" "''1234567890''"
      john_no_phones "snd (hd john_no_phones)"]
  by (simp add: split_def isspace_def john_no_phones_def add_record_def)

subsection \<open>\<open>add\<close> on a name that is present\<close>

lemma add_body_valid:
  assumes "split args = [w, nm, ph]" and "re_match phone_pattern ph"
  shows "add_body args book =
     (Inr (''Contact '' @ nm @ '' with phone '' @ ph @ '' has been added.''),
      dict_set nm (fresh_record nm ph) book)"
proof -
  have "nm \<in> set (split args)" using assms(1) by simp
  then have "nm \<noteq> []" by (rule split_nonempty)
  then show ?thesis using assms
    by (simp add: add_body_def Record_init_def Name_init_def add_phone_def Phone_init_def
      Phone_set_value_def Phone_validate_def fresh_record_def)
qed

text \<open>
  C7: \<open>add\<close> with a name and a valid phone stores, under the name, a fresh record whose
  only phone is the one given, whatever the address book held under that name before;
  the other entries are as they were, and a name that was present keeps its place.
  So after \<open>add john 1234567890\<close> and \<open>add john 9999999999\<close> the record of john holds
  the one phone 9999999999.
\<close>

theorem add_overwrites:
  assumes "split args = [w, nm, ph]" and "re_match phone_pattern ph"
  shows "add args book = (''Contact '' @ nm @ '' with phone '' @ ph @ '' has been added.'',
                          dict_set nm (fresh_record nm ph) book)
     \<and> dict_get (snd (add args book)) nm = Some (fresh_record nm ph)
     \<and> phones (fresh_record nm ph) = [\<lparr>phone_value = ph\<rparr>]
     \<and> (\<forall>k. k \<noteq> nm \<longrightarrow> dict_get (snd (add args book)) k = dict_get book k)
     \<and> (nm \<in> fst ` set book \<longrightarrow> map fst (snd (add args book)) = map fst book)"
  using add_body_valid[OF assms, of book]
  by (simp add: add_def input_error_def dict_get_set keys_dict_set fresh_record_def)

theorem add_overwrites_witness:
  "split ''add john 9999999999'' = [''add'', ''john'', ''9999999999'']
   \<and> re_match phone_pattern ''9999999999''
   \<and> dict_get (snd (add ''add john 1234567890'' [])) ''john''
       = Some (fresh_record ''john'' ''1234567890'')
   \<and> dict_get (snd (add ''add john 9999999999'' (snd (add ''add john 1234567890'' [])))) ''john''
       = Some (fresh_record ''john'' ''9999999999'')
   \<and> phones (fresh_record ''john'' ''9999999999'') = [\<lparr>phone_value = ''9999999999''\<rparr>]"
proof -
  have s2: "split ''add john 9999999999'' = [''add'', ''john'', ''9999999999'']"
    by (simp add: split_def isspace_def)
  have m2: "re_match phone_pattern ''9999999999''" by code_simp
  have s1: "split ''add john 1234567890'' = [''add'', ''john'', ''1234567890'']"
    by (simp add: split_def isspace_def)
  have m1: "re_match phone_pattern ''1234567890''" by code_simp
  show ?thesis
    using add_overwrites[OF s2 m2, of "snd (add ''add john 1234567890'' [])"]
      add_overwrites[OF s1 m1, of "[]"] s2 m2 by simp
qed

subsection \<open>\<open>change\<close> with a malformed phone\<close>

text \<open>
  What \<open>edit_phone\<close> does to the first phone of a record: the new value is stored
  whether or not it matches the pattern; only the result differs.
\<close>

lemma edit_phone_valid:
  assumes "phones r = p # ps" and "re_match phone_pattern new_phone"
  shows "edit_phone (phone_value p) new_phone r
           = (Inr True, r\<lparr>phones := p\<lparr>phone_value := new_phone\<rparr> # ps\<rparr>)"
  using assms by (simp add: edit_phone_def Phone_set_value_def Phone_validate_def)

lemma edit_phone_malformed:
  assumes "phones r = p # ps" and "\<not> re_match phone_pattern new_phone"
  shows "edit_phone (phone_value p) new_phone r
           = (Inl ValueError, r\<lparr>phones := p\<lparr>phone_value := new_phone\<rparr> # ps\<rparr>)"
  using assms by (simp add: edit_phone_def Phone_set_value_def Phone_validate_def)

text \<open>
  C1 at a concrete input: after \<open>add john 1234567890\<close>, the command \<open>change john abc\<close>
  fails validation and returns "Please enter a valid command.", and the record of john
  then holds the phone \<open>abc\<close>, which does not match the pattern: the setter stored the
  value before validating it.
\<close>

theorem change_malformed_phone_mutates:
  "add ''add john 1234567890'' [] =
     (''Contact john with phone 1234567890 has been added.'',
      [(''john'', fresh_record ''john'' ''1234567890'')])
   \<and> \<not> re_match phone_pattern ''abc''
   \<and> change ''change john abc'' [(''john'', fresh_record ''john'' ''1234567890'')] =
     (''Please enter a valid command.'', [(''john'', fresh_record ''john'' ''abc'')])"
  by code_simp

subsection \<open>Command dispatch\<close>

lemma startswith_prefix: "startswith s k \<longleftrightarrow> prefix k s"
  unfolding startswith_def
  by (metis append_eq_conv_conj prefix_def take_is_prefix)

lemma command_loop_first:
  "\<forall>(c', k') \<in> set pre. \<not> prefix k' (lower text) \<Longrightarrow> prefix k (lower text) \<Longrightarrow>
   command_loop (pre @ (c, k) # post) text = (Some c, text)"
  by (induction pre) (auto simp: startswith_prefix)

lemma command_loop_found:
  "command_loop cs text = (Some c, d) \<Longrightarrow>
   d = text \<and> (\<exists>pre k post. cs = pre @ (c, k) # post \<and> prefix k (lower text)
        \<and> (\<forall>(c', k') \<in> set pre. \<not> prefix k' (lower text)))"
proof (induction cs)
  case Nil
  then show ?case by simp
next
  case (Cons a cs)
  obtain c0 k0 where a: "a = (c0, k0)" by (cases a)
  show ?case
  proof (cases "prefix k0 (lower text)")
    case True
    with Cons.prems a have cd: "c = c0" "d = text" by (simp_all add: startswith_prefix)
    from a cd True have "a # cs = [] @ (c, k0) # cs \<and> prefix k0 (lower text)
        \<and> (\<forall>(c', k') \<in> set []. \<not> prefix k' (lower text))" by simp
    then have "\<exists>pre k post. a # cs = pre @ (c, k) # post \<and> prefix k (lower text)
        \<and> (\<forall>(c', k') \<in> set pre. \<not> prefix k' (lower text))" by (intro exI)
    with cd show ?thesis by (intro conjI)
  next
    case False
    with Cons.prems a have "command_loop cs text = (Some c, d)"
      by (simp add: startswith_prefix)
    from Cons.IH[OF this] obtain pre k post where d: "d = text"
      and h: "cs = pre @ (c, k) # post" "prefix k (lower text)"
        "\<forall>(c', k') \<in> set pre. \<not> prefix k' (lower text)" by blast
    from h a False have "a # cs = (a # pre) @ (c, k) # post \<and> prefix k (lower text)
        \<and> (\<forall>(c', k') \<in> set (a # pre). \<not> prefix k' (lower text))" by simp
    then have "\<exists>pre k post. a # cs = pre @ (c, k) # post \<and> prefix k (lower text)
        \<and> (\<forall>(c', k') \<in> set pre. \<not> prefix k' (lower text))" by (intro exI)
    with d show ?thesis by (intro conjI)
  qed
qed

lemma command_loop_Some:
  "command_loop cs text = (Some c, d) \<longleftrightarrow>
     d = text \<and> (\<exists>pre k post. cs = pre @ (c, k) # post \<and> prefix k (lower text)
        \<and> (\<forall>(c', k') \<in> set pre. \<not> prefix k' (lower text)))"
proof
  assume "command_loop cs text = (Some c, d)"
  then show "d = text \<and> (\<exists>pre k post. cs = pre @ (c, k) # post \<and> prefix k (lower text)
        \<and> (\<forall>(c', k') \<in> set pre. \<not> prefix k' (lower text)))"
    by (rule command_loop_found)
next
  assume "d = text \<and> (\<exists>pre k post. cs = pre @ (c, k) # post \<and> prefix k (lower text)
        \<and> (\<forall>(c', k') \<in> set pre. \<not> prefix k' (lower text)))"
  then obtain pre k post where d: "d = text"
      and h: "cs = pre @ (c, k) # post" "prefix k (lower text)"
        "\<forall>(c', k') \<in> set pre. \<not> prefix k' (lower text)" by blast
  from command_loop_first[OF h(3) h(2)] h(1) d
  show "command_loop cs text = (Some c, d)" by simp
qed

lemma command_loop_None:
  "(\<forall>(c, k) \<in> set cs. \<not> prefix k (lower text)) \<Longrightarrow> command_loop cs text = (None, [])"
  by (induction cs) (auto simp: startswith_prefix)

text \<open>
  C9: the commands are tried in the order hello, add, change, phone, show all, exit;
  \<open>command_handler\<close> returns a command exactly when its keyword is a prefix of the
  lower-cased line and no earlier keyword is; when no keyword is a prefix it returns no
  command, and \<open>main\<close> prints "Unknown command, try again." and goes on with the next
  line and the same address book.
\<close>

theorem command_dispatch:
  "COMMANDS = [(Hello, ''hello''), (Add, ''add''), (Change, ''change''),
               (PhoneCmd, ''phone''), (ShowAll, ''show all''), (Exit, ''exit'')]
   \<and> (command_handler text = (Some c, d) \<longleftrightarrow>
        d = text \<and> (\<exists>pre k post. COMMANDS = pre @ (c, k) # post \<and> prefix k (lower text)
          \<and> (\<forall>(c', k') \<in> set pre. \<not> prefix k' (lower text))))
   \<and> ((\<forall>(c', k') \<in> set COMMANDS. \<not> prefix k' (lower text)) \<longrightarrow>
        command_handler text = (None, [])
        \<and> main (text # inputs) book =
            (case main inputs book of
               (out, book', e) \<Rightarrow> (''Unknown command, try again.'' # out, book', e)))"
proof -
  have order: "COMMANDS = [(Hello, ''hello''), (Add, ''add''), (Change, ''change''),
               (PhoneCmd, ''phone''), (ShowAll, ''show all''), (Exit, ''exit'')]"
    by (simp only: COMMANDS_def)
  have first: "command_handler text = (Some c, d) \<longleftrightarrow>
        d = text \<and> (\<exists>pre k post. COMMANDS = pre @ (c, k) # post \<and> prefix k (lower text)
          \<and> (\<forall>(c', k') \<in> set pre. \<not> prefix k' (lower text)))"
    unfolding command_handler_def by (rule command_loop_Some)
  have none: "(\<forall>(c', k') \<in> set COMMANDS. \<not> prefix k' (lower text)) \<longrightarrow>
        command_handler text = (None, [])
        \<and> main (text # inputs) book =
            (case main inputs book of
               (out, book', e) \<Rightarrow> (''Unknown command, try again.'' # out, book', e))"
  proof
    assume "\<forall>(c', k') \<in> set COMMANDS. \<not> prefix k' (lower text)"
    then have n: "command_handler text = (None, [])"
      unfolding command_handler_def by (rule command_loop_None)
    have "main (text # inputs) book =
            (case main inputs book of
               (out, book', e) \<Rightarrow> (''Unknown command, try again.'' # out, book', e))"
      by (simp only: main.simps n prod.case option.case Let_def)
    with n show "command_handler text = (None, [])
        \<and> main (text # inputs) book =
            (case main inputs book of
               (out, book', e) \<Rightarrow> (''Unknown command, try again.'' # out, book', e))"
      by (rule conjI)
  qed
  from order first none show ?thesis by (intro conjI)
qed


theorem command_dispatch_witness:
  "command_handler ''ADD john 1234567890'' = (Some Add, ''ADD john 1234567890'')
   \<and> command_handler ''foo'' = (None, [])
   \<and> main [''foo'', ''hello''] [] =
        ([''Unknown command, try again.'', ''How can I help you?''], [], EndOfInput)"
proof -
  have l: "lower ''ADD john 1234567890'' = ''add john 1234567890''"
    by code_simp
  have "COMMANDS = [(Hello, ''hello'')] @ (Add, ''add'') # [(Change, ''change''),
               (PhoneCmd, ''phone''), (ShowAll, ''show all''), (Exit, ''exit'')]
      \<and> prefix ''add'' (lower ''ADD john 1234567890'')
      \<and> (\<forall>(c', k') \<in> set [(Hello, ''hello'')]. \<not> prefix k' (lower ''ADD john 1234567890''))"
    by (simp add: COMMANDS_def l)
  then have a: "\<exists>pre k post. COMMANDS = pre @ (Add, k) # post
      \<and> prefix k (lower ''ADD john 1234567890'')
      \<and> (\<forall>(c', k') \<in> set pre. \<not> prefix k' (lower ''ADD john 1234567890''))"
    by blast
  have lf: "lower ''foo'' = ''foo''" by code_simp
  have f: "\<forall>(c', k') \<in> set COMMANDS. \<not> prefix k' (lower ''foo'')"
    by (simp add: COMMANDS_def lf)
  have h: "main [''hello''] [] = ([''How can I help you?''], [], EndOfInput)"
    by code_simp
  from a have 1: "command_handler ''ADD john 1234567890'' = (Some Add, ''ADD john 1234567890'')"
    using command_dispatch[of "''ADD john 1234567890''" Add "''ADD john 1234567890''" "[]" "[]"]
    by blast
  from f have 2: "command_handler ''foo'' = (None, []) \<and> main [''foo'', ''hello''] [] =
            (case main [''hello''] [] of
               (out, book', e) \<Rightarrow> (''Unknown command, try again.'' # out, book', e))"
    using command_dispatch[of "''foo''" Add "''foo''" "[''hello'']" "[]"]
    by blast
  from 1 2 show ?thesis by (simp only: h prod.case simp_thms)
qed

subsection \<open>Batches of the iterator\<close>

declare batches.simps [simp del]

lemma batches_stop: "n = 0 \<or> xs = [] \<Longrightarrow> batches n xs = []"
  by (subst batches.simps) simp

lemma batches_step: "0 < n \<Longrightarrow> xs \<noteq> [] \<Longrightarrow> batches n xs = take n xs # batches n (drop n xs)"
  by (subst batches.simps) simp

lemma concat_batches: "0 < n \<Longrightarrow> concat (batches n xs) = xs"
proof (induction n xs rule: batches.induct)
  case (1 n xs)
  show ?case
  proof (cases "xs = []")
    case True
    then show ?thesis by (simp add: batches_stop)
  next
    case False
    with 1 show ?thesis by (simp add: batches_step)
  qed
qed

lemma batches_sizes: "b \<in> set (batches n xs) \<Longrightarrow> b \<noteq> [] \<and> length b \<le> n"
proof (induction n xs rule: batches.induct)
  case (1 n xs)
  show ?case
  proof (cases "n = 0 \<or> xs = []")
    case True
    with "1.prems" show ?thesis by (simp add: batches_stop)
  next
    case False
    with 1 show ?thesis by (auto simp: batches_step)
  qed
qed

lemma batches_nth:
  "i < length (batches n xs) \<Longrightarrow> batches n xs ! i = take n (drop (i * n) xs)"
proof (induction n xs arbitrary: i rule: batches.induct)
  case (1 n xs)
  show ?case
  proof (cases "n = 0 \<or> xs = []")
    case True
    with "1.prems" show ?thesis by (simp add: batches_stop)
  next
    case False
    then have step: "batches n xs = take n xs # batches n (drop n xs)"
      by (simp add: batches_step)
    show ?thesis
    proof (cases i)
      case 0
      with step show ?thesis by simp
    next
      case (Suc j)
      with "1.prems" step have "j < length (batches n (drop n xs))" by simp
      with "1.IH"[OF False] have "batches n (drop n xs) ! j = take n (drop (j * n) (drop n xs))"
        by simp
      with step Suc show ?thesis by (simp add: add.commute)
    qed
  qed
qed

lemma length_batches: "0 < n \<Longrightarrow> length (batches n xs) = (length xs + n - 1) div n"
proof (induction n xs rule: batches.induct)
  case (1 n xs)
  show ?case
  proof (cases "xs = []")
    case True
    with "1.prems" show ?thesis by (simp add: batches_stop)
  next
    case False
    with 1 have l: "length (batches n xs) = Suc ((length xs - n + n - 1) div n)"
      by (simp add: batches_step)
    show ?thesis
    proof (cases "n \<le> length xs")
      case True
      then have "length xs + n - 1 = (length xs - 1) + 1 * n" using "1.prems" by simp
      then have "(length xs + n - 1) div n = Suc ((length xs - 1) div n)"
        using "1.prems" by (simp only: div_mult_self1)
      with l True show ?thesis by simp
    next
      case f: False
      with False "1.prems" have "(length xs + n - 1) div n = 1"
        by (cases xs) (auto simp: div_eq_dividend_iff Suc_leI le_div_geq)
      with l f "1.prems" show ?thesis by simp
    qed
  qed
qed

lemma batches_full:
  assumes "Suc i < length (batches n xs)"
  shows "length (batches n xs ! i) = n"
proof -
  have n: "0 < n" using assms by (cases "n = 0") (simp_all add: batches_stop)
  from assms have "Suc (Suc i) \<le> (length xs + n - 1) div n" by (simp add: length_batches n)
  then have "Suc (Suc i) * n \<le> length xs + n - 1"
    using n by (simp add: less_eq_div_iff_mult_less_eq)
  then have "Suc i * n \<le> length xs" using n by simp
  then have "length (take n (drop (i * n) xs)) = n" by simp
  with batches_nth[of i n xs] assms show ?thesis by simp
qed


text \<open>
  C6: for a positive \<open>N\<close>, \<open>iterator(N)\<close> yields a finite list of batches of rendered
  records. Batch \<open>i\<close> is the rendering of the records at positions \<open>i * N\<close> up to
  \<open>i * N + N\<close> in stored order, so the batches do not overlap and their concatenation
  is the rendering of every record once, in order. No batch is empty or longer than
  \<open>N\<close>, every batch but the last has exactly \<open>N\<close> records, and there are
  \<open>\<lceil>len / N\<rceil>\<close> batches. Five records with \<open>N = 2\<close> give the sizes 2, 2, 1.
\<close>

theorem iterator_batches:
  assumes "0 < N"
  shows "\<exists>bs. iterator N book = Inr bs
     \<and> concat bs = map Record_str (dict_values book)
     \<and> (\<forall>i < length bs.
           bs ! i = map Record_str (take (nat N) (drop (i * nat N) (dict_values book))))
     \<and> (\<forall>b \<in> set bs. b \<noteq> [] \<and> length b \<le> nat N)
     \<and> (\<forall>i. Suc i < length bs \<longrightarrow> length (bs ! i) = nat N)
     \<and> length bs = (length book + nat N - 1) div nat N"
proof -
  define n where "n = nat N"
  define rs where "rs = dict_values book"
  define bs where "bs = map (map Record_str) (batches n rs)"
  have n: "0 < n" using assms by (simp add: n_def)
  have it: "iterator N book = Inr bs"
    using assms by (simp add: iterator_def bs_def n_def rs_def)
  have c: "concat bs = map Record_str rs"
    by (simp add: bs_def map_concat[symmetric] concat_batches n)
  have nth: "\<forall>i < length bs. bs ! i = map Record_str (take n (drop (i * n) rs))"
    by (simp add: bs_def batches_nth)
  have sz: "\<forall>b \<in> set bs. b \<noteq> [] \<and> length b \<le> n"
    using batches_sizes[of _ n rs] by (auto simp: bs_def)
  have full: "\<forall>i. Suc i < length bs \<longrightarrow> length (bs ! i) = n"
    using batches_full[of _ n rs] by (simp add: bs_def)
  have len: "length bs = (length book + n - 1) div n"
    by (simp add: bs_def length_batches n rs_def dict_values_def)
  from it c nth sz full len show ?thesis
    unfolding n_def rs_def by blast
qed

theorem iterator_batches_witness:
  "(0::int) < 2 \<and> (\<exists>bs. iterator 2 five_contacts = Inr bs \<and> map length bs = [2, 2, 1]
      \<and> concat bs = map Record_str (dict_values five_contacts))"
proof -
  have p: "(0::int) < 2" by simp
  from iterator_batches[OF p, of five_contacts] obtain bs where
    it: "iterator 2 five_contacts = Inr bs"
    and c: "concat bs = map Record_str (dict_values five_contacts)"
    and nth: "\<forall>i < length bs.
           bs ! i = map Record_str (take (nat 2) (drop (i * nat 2) (dict_values five_contacts)))"
    and len: "length bs = (length five_contacts + nat 2 - 1) div nat 2"
    by blast
  have l3: "length bs = 3" using len by (simp add: five_contacts_def)
  have "length (bs ! 0) = 2" "length (bs ! 1) = 2" "length (bs ! 2) = 1"
    using nth l3 by (simp_all add: five_contacts_def dict_values_def)
  with l3 have ml: "map length bs = [2, 2, 1]"
    by (simp add: list_eq_iff_nth_eq less_Suc_eq numeral_3_eq_3 numeral_2_eq_2)
  from it ml c have "iterator 2 five_contacts = Inr bs \<and> map length bs = [2, 2, 1]
      \<and> concat bs = map Record_str (dict_values five_contacts)"
    by (intro conjI)
  then have "\<exists>bs. iterator 2 five_contacts = Inr bs \<and> map length bs = [2, 2, 1]
      \<and> concat bs = map Record_str (dict_values five_contacts)"
    by (rule exI)
  with p show ?thesis by (rule conjI)
qed

section \<open>Properties of the fields\<close>

subsection \<open>The phone pattern\<close>

lemma rep_digit_iff:
  "c \<in> set (rep (rmatch Digit) lo hi (p, s)) \<longleftrightarrow>
     (\<exists>k. c = (p + k, drop k s) \<and> lo \<le> k \<and> k \<le> hi \<and> k \<le> length (takeWhile isdigit s))"
proof (induction hi arbitrary: lo p s)
  case 0
  then show ?case by auto
next
  case (Suc hi)
  show ?case
  proof (cases "s \<noteq> [] \<and> isdigit (hd s)")
    case False
    then have tw: "takeWhile isdigit s = []" by (cases s) auto
    from False have none: "rmatch Digit (p, s) = []" by (cases s) auto
    have "c \<in> set (rep (rmatch Digit) lo (Suc hi) (p, s)) \<longleftrightarrow> lo = 0 \<and> c = (p, s)"
      unfolding rep.simps none by auto
    also have "\<dots> \<longleftrightarrow> (\<exists>k. c = (p + k, drop k s) \<and> lo \<le> k \<and> k \<le> Suc hi
        \<and> k \<le> length (takeWhile isdigit s))"
      by (auto simp: tw)
    finally show ?thesis .
  next
    case True
    then obtain y ys where s: "s = y # ys" and y: "isdigit y" by (cases s) auto
    have tw: "length (takeWhile isdigit s) = Suc (length (takeWhile isdigit ys))"
      using s y by simp
    have step: "rmatch Digit (p, s) = [(Suc p, ys)]" using s y by simp
    have "c \<in> set (rep (rmatch Digit) lo (Suc hi) (p, s)) \<longleftrightarrow>
        c \<in> set (rep (rmatch Digit) (lo - 1) hi (Suc p, ys)) \<or> (lo = 0 \<and> c = (p, s))"
      unfolding rep.simps step by auto
    also have "\<dots> \<longleftrightarrow> (\<exists>k. c = (Suc p + k, drop k ys) \<and> lo - 1 \<le> k \<and> k \<le> hi
        \<and> k \<le> length (takeWhile isdigit ys)) \<or> (lo = 0 \<and> c = (p, s))"
      by (simp only: Suc.IH)
    also have "\<dots> \<longleftrightarrow> (\<exists>k. c = (p + k, drop k s) \<and> lo \<le> k \<and> k \<le> Suc hi
        \<and> k \<le> length (takeWhile isdigit s))" (is "?L \<longleftrightarrow> ?R")
    proof
      assume ?L
      then show ?R
      proof
        assume "\<exists>k. c = (Suc p + k, drop k ys) \<and> lo - 1 \<le> k \<and> k \<le> hi
          \<and> k \<le> length (takeWhile isdigit ys)"
        then obtain k where "c = (Suc p + k, drop k ys)" "lo - 1 \<le> k" "k \<le> hi"
          "k \<le> length (takeWhile isdigit ys)" by blast
        then have "c = (p + Suc k, drop (Suc k) s) \<and> lo \<le> Suc k \<and> Suc k \<le> Suc hi
          \<and> Suc k \<le> length (takeWhile isdigit s)" using s tw by simp
        then show ?R by (rule exI)
      next
        assume "lo = 0 \<and> c = (p, s)"
        then have "c = (p + 0, drop 0 s) \<and> lo \<le> 0 \<and> 0 \<le> Suc hi
          \<and> 0 \<le> length (takeWhile isdigit s)" by simp
        then show ?R by (rule exI)
      qed
    next
      assume ?R
      then obtain k where k: "c = (p + k, drop k s)" "lo \<le> k" "k \<le> Suc hi"
          "k \<le> length (takeWhile isdigit s)" by blast
      show ?L
      proof (cases k)
        case 0
        with k show ?thesis by simp
      next
        case (Suc j)
        with k s tw have "c = (Suc p + j, drop j ys) \<and> lo - 1 \<le> j \<and> j \<le> hi
          \<and> j \<le> length (takeWhile isdigit ys)" by simp
        then have "\<exists>k. c = (Suc p + k, drop k ys) \<and> lo - 1 \<le> k \<and> k \<le> hi
          \<and> k \<le> length (takeWhile isdigit ys)" by (rule exI)
        then show ?thesis by (rule disjI1)
      qed
    qed
    finally show ?thesis .
  qed
qed

lemma concat_map_nonempty: "concat (map f xs) \<noteq> [] \<longleftrightarrow> (\<exists>x \<in> set xs. f x \<noteq> [])"
  by (induction xs) auto

lemma seq_nonempty:
  "rmatch (Seq r1 r2) c \<noteq> [] \<longleftrightarrow> (\<exists>c' \<in> set (rmatch r1 c). rmatch r2 c' \<noteq> [])"
  by (simp add: concat_map_nonempty)

lemma rep_eta: "rmatch (Rep lo hi r) c = rep (rmatch r) lo hi c"
  by simp

lemma eol_nonempty: "rmatch Eol c \<noteq> [] \<longleftrightarrow> snd c = [] \<or> snd c = [CHR 0x0A]"
  by simp

lemma tail_match:
  "rmatch (Seq (Rep 9 15 Digit) Eol) (p, t) \<noteq> [] \<longleftrightarrow> digits_then_end t" (is "?L \<longleftrightarrow> ?R")
proof -
  have L: "?L \<longleftrightarrow> (\<exists>c. (\<exists>k. c = (p + k, drop k t) \<and> 9 \<le> k \<and> k \<le> 15
      \<and> k \<le> length (takeWhile isdigit t)) \<and> (snd c = [] \<or> snd c = [CHR 0x0A]))"
    by (simp only: seq_nonempty rep_eta eol_nonempty Bex_def rep_digit_iff)
  show ?thesis
  proof
    assume ?L
    with L obtain c k where "c = (p + k, drop k t)" "9 \<le> k" "k \<le> 15"
      "k \<le> length (takeWhile isdigit t)" "snd c = [] \<or> snd c = [CHR 0x0A]" by blast
    then have "9 \<le> k \<and> k \<le> 15 \<and> k \<le> length (takeWhile isdigit t)
      \<and> (drop k t = [] \<or> drop k t = [CHR 0x0A])" by simp
    then show ?R unfolding digits_then_end_def by (rule exI)
  next
    assume ?R
    then obtain k where "9 \<le> k" "k \<le> 15" "k \<le> length (takeWhile isdigit t)"
      "drop k t = [] \<or> drop k t = [CHR 0x0A]" unfolding digits_then_end_def by blast
    then have "(\<exists>k'. (p + k, drop k t) = (p + k', drop k' t) \<and> 9 \<le> k' \<and> k' \<le> 15
      \<and> k' \<le> length (takeWhile isdigit t))
      \<and> (snd (p + k, drop k t) = [] \<or> snd (p + k, drop k t) = [CHR 0x0A])"
      by (intro conjI exI[of _ k]) simp_all
    then have "\<exists>c. (\<exists>k. c = (p + k, drop k t) \<and> 9 \<le> k \<and> k \<le> 15
      \<and> k \<le> length (takeWhile isdigit t)) \<and> (snd c = [] \<or> snd c = [CHR 0x0A])"
      by (rule exI)
    with L show ?L by (rule iffD2)
  qed
qed

lemma seq_bol:
  "rmatch (Seq Bol (Seq r1 r2)) (0, s) \<noteq> [] \<longleftrightarrow> (\<exists>c \<in> set (rmatch r1 (0, s)). rmatch r2 c \<noteq> [])"
  by (simp add: concat_map_nonempty)

lemma opt_lit:
  "(\<exists>c \<in> set (rmatch (Opt (Lit x)) (0, s)). rmatch r c \<noteq> []) \<longleftrightarrow>
     rmatch r (0, s) \<noteq> [] \<or> (\<exists>t. s = x # t \<and> rmatch r (Suc 0, t) \<noteq> [])"
  by (cases s) auto

lemma re_match_phone_split:
  "re_match phone_pattern s \<longleftrightarrow> digits_then_end s \<or> (\<exists>t. s = CHR ''+'' # t \<and> digits_then_end t)"
  unfolding re_match_def phone_pattern_def seq_bol opt_lit tail_match ..

lemma take_takeWhile:
  "k \<le> length (takeWhile P t) \<Longrightarrow> \<forall>c \<in> set (take k t). P c"
proof
  fix c assume k: "k \<le> length (takeWhile P t)" and c: "c \<in> set (take k t)"
  have "take k t = take k (takeWhile P t @ dropWhile P t)" by simp
  also have "\<dots> = take k (takeWhile P t)" using k by (simp only: take_append) simp
  finally have "c \<in> set (takeWhile P t)" using c by (auto dest: in_set_takeD)
  then show "P c" by (rule set_takeWhileD[THEN conjunct2])
qed

lemma digits_then_end_iff:
  "digits_then_end t \<longleftrightarrow>
     (\<exists>ds nl. t = ds @ nl \<and> (nl = [] \<or> nl = [CHR 0x0A]) \<and> 9 \<le> length ds \<and> length ds \<le> 15
        \<and> (\<forall>c \<in> set ds. isdigit c))" (is "?L \<longleftrightarrow> ?R")
proof
  assume ?L
  then obtain k where k: "9 \<le> k" "k \<le> 15" "k \<le> length (takeWhile isdigit t)"
    "drop k t = [] \<or> drop k t = [CHR 0x0A]" unfolding digits_then_end_def by blast
  have "length (takeWhile isdigit t) \<le> length t" by (rule length_takeWhile_le)
  with k have len: "length (take k t) = k" by simp
  from k take_takeWhile[of k isdigit t] len
  have "t = take k t @ drop k t \<and> (drop k t = [] \<or> drop k t = [CHR 0x0A])
      \<and> 9 \<le> length (take k t) \<and> length (take k t) \<le> 15 \<and> (\<forall>c \<in> set (take k t). isdigit c)"
    by simp
  then show ?R by blast
next
  assume ?R
  then obtain ds nl where h: "t = ds @ nl" "nl = [] \<or> nl = [CHR 0x0A]" "9 \<le> length ds"
    "length ds \<le> 15" "\<forall>c \<in> set ds. isdigit c" by blast
  then have "takeWhile isdigit t = ds @ takeWhile isdigit nl" by (simp add: takeWhile_append2)
  then have "length ds \<le> length (takeWhile isdigit t)" by simp
  with h have "9 \<le> length ds \<and> length ds \<le> 15 \<and> length ds \<le> length (takeWhile isdigit t)
      \<and> (drop (length ds) t = [] \<or> drop (length ds) t = [CHR 0x0A])" by simp
  then show ?L unfolding digits_then_end_def by (rule exI)
qed

lemma phone_pattern_iff:
  "re_match phone_pattern s \<longleftrightarrow>
     (\<exists>sign ds nl. s = sign @ ds @ nl \<and> (sign = [] \<or> sign = ''+'')
        \<and> (nl = [] \<or> nl = [CHR 0x0A]) \<and> 9 \<le> length ds \<and> length ds \<le> 15
        \<and> (\<forall>c \<in> set ds. isdigit c))" (is "?L \<longleftrightarrow> ?R")
proof
  assume ?L
  then have "digits_then_end s \<or> (\<exists>t. s = CHR ''+'' # t \<and> digits_then_end t)"
    by (simp only: re_match_phone_split)
  then show ?R
  proof
    assume "digits_then_end s"
    then obtain ds nl where "s = [] @ ds @ nl" "nl = [] \<or> nl = [CHR 0x0A]" "9 \<le> length ds"
      "length ds \<le> 15" "\<forall>c \<in> set ds. isdigit c" unfolding digits_then_end_iff by auto
    then show ?R by blast
  next
    assume "\<exists>t. s = CHR ''+'' # t \<and> digits_then_end t"
    then obtain ds nl where "s = ''+'' @ ds @ nl" "nl = [] \<or> nl = [CHR 0x0A]" "9 \<le> length ds"
      "length ds \<le> 15" "\<forall>c \<in> set ds. isdigit c" unfolding digits_then_end_iff by auto
    then show ?R by blast
  qed
next
  assume ?R
  then obtain sign ds nl where s: "s = sign @ ds @ nl" and sg: "sign = [] \<or> sign = ''+''"
    and h: "nl = [] \<or> nl = [CHR 0x0A]" "9 \<le> length ds"
      "length ds \<le> 15" "\<forall>c \<in> set ds. isdigit c" by blast
  from h have d: "digits_then_end (ds @ nl)" unfolding digits_then_end_iff by blast
  from sg show ?L
  proof
    assume "sign = []"
    with s d show ?L by (simp add: re_match_phone_split)
  next
    assume "sign = ''+''"
    with s d show ?L by (simp add: re_match_phone_split)
  qed
qed

lemma plus_not_digit: "\<not> isdigit (CHR ''+'')"
  by (simp add: isdigit_def)

subsection \<open>The pattern and the format of the specification\<close>

text \<open>
  On the strings of the model, \<open>re.match\<close> with the phone pattern accepts the strings
  of the specification's format, and besides them only such a string followed by one
  newline.
\<close>

lemma spec_phone_format_iff:
  "spec_phone_format s \<longleftrightarrow>
     (\<exists>sign ds. s = sign @ ds \<and> (sign = [] \<or> sign = ''+'')
        \<and> 9 \<le> length ds \<and> length ds \<le> 15 \<and> (\<forall>c \<in> set ds. isdigit c))" (is "?L \<longleftrightarrow> ?R")
proof
  assume L: ?L
  show ?R
  proof (cases "\<exists>t. s = CHR ''+'' # t")
    case True
    then obtain t where t: "s = CHR ''+'' # t" by blast
    with L have "s = ''+'' @ t \<and> (''+'' = [] \<or> ''+'' = ''+'')
        \<and> 9 \<le> length t \<and> length t \<le> 15 \<and> (\<forall>c \<in> set t. isdigit c)"
      by (simp add: spec_phone_format_def list_all_iff)
    then show ?thesis by blast
  next
    case False
    then have "(case s of [] \<Rightarrow> [] | c # t \<Rightarrow> if c = CHR ''+'' then t else s) = s"
      by (cases s) auto
    with L have "s = [] @ s \<and> ([] = [] \<or> [] = ''+'')
        \<and> 9 \<le> length s \<and> length s \<le> 15 \<and> (\<forall>c \<in> set s. isdigit c)"
      by (simp add: spec_phone_format_def list_all_iff)
    then show ?thesis by blast
  qed
next
  assume ?R
  then obtain sign ds where s: "s = sign @ ds" and sg: "sign = [] \<or> sign = ''+''"
    and h: "9 \<le> length ds" "length ds \<le> 15" "\<forall>c \<in> set ds. isdigit c" by blast
  from sg show ?L
  proof
    assume e: "sign = []"
    from h obtain c t where ds: "ds = c # t" by (cases ds) auto
    with h have "c \<noteq> CHR ''+''" using plus_not_digit by auto
    with e s ds h show ?L by (simp add: spec_phone_format_def list_all_iff)
  next
    assume "sign = ''+''"
    with s h show ?L by (simp add: spec_phone_format_def list_all_iff)
  qed
qed

lemma re_match_phone_spec:
  "re_match phone_pattern s \<longleftrightarrow>
     spec_phone_format s \<or> (\<exists>t. s = t @ [CHR 0x0A] \<and> spec_phone_format t)" (is "?L \<longleftrightarrow> ?R")
proof
  assume ?L
  then obtain sign ds nl where s: "s = sign @ ds @ nl" and sg: "sign = [] \<or> sign = ''+''"
    and nl: "nl = [] \<or> nl = [CHR 0x0A]"
    and h: "9 \<le> length ds" "length ds \<le> 15" "\<forall>c \<in> set ds. isdigit c"
    unfolding phone_pattern_iff by blast
  from sg h have f: "spec_phone_format (sign @ ds)" unfolding spec_phone_format_iff by blast
  from nl show ?R
  proof
    assume "nl = []"
    with s f show ?R by simp
  next
    assume "nl = [CHR 0x0A]"
    with s f have "s = (sign @ ds) @ [CHR 0x0A] \<and> spec_phone_format (sign @ ds)" by simp
    then show ?R by blast
  qed
next
  assume R: ?R
  have ok: "spec_phone_format t \<Longrightarrow> nl = [] \<or> nl = [CHR 0x0A] \<Longrightarrow> re_match phone_pattern (t @ nl)"
    for t nl
  proof -
    assume "spec_phone_format t" and nl: "nl = [] \<or> nl = [CHR 0x0A]"
    then obtain sign ds where "t = sign @ ds" "sign = [] \<or> sign = ''+''"
      "9 \<le> length ds" "length ds \<le> 15" "\<forall>c \<in> set ds. isdigit c"
      unfolding spec_phone_format_iff by blast
    with nl have "t @ nl = sign @ ds @ nl \<and> (sign = [] \<or> sign = ''+'')
        \<and> (nl = [] \<or> nl = [CHR 0x0A]) \<and> 9 \<le> length ds \<and> length ds \<le> 15
        \<and> (\<forall>c \<in> set ds. isdigit c)" by simp
    then show "re_match phone_pattern (t @ nl)" unfolding phone_pattern_iff by blast
  qed
  from R show ?L
  proof
    assume "spec_phone_format s"
    from ok[OF this, of "[]"] show ?L by simp
  next
    assume "\<exists>t. s = t @ [CHR 0x0A] \<and> spec_phone_format t"
    then obtain t where t: "s = t @ [CHR 0x0A]" "spec_phone_format t" by blast
    from ok[OF t(2), of "[CHR 0x0A]"] t(1) show ?L by simp
  qed
qed

text \<open>
  Constructing a Phone succeeds, with the string stored as it is, when \<open>re.match\<close>
  accepts the string, and raises \<open>ValueError\<close> otherwise; so it succeeds on every
  string of the specification's format.
\<close>

lemma Phone_init_re_match:
  "Phone_init s = (if re_match phone_pattern s then Inr \<lparr>phone_value = s\<rparr> else Inl ValueError)"
  by (simp add: Phone_init_def Phone_set_value_def Phone_validate_def)

lemma Phone_init_spec_format:
  "spec_phone_format s \<Longrightarrow> Phone_init s = Inr \<lparr>phone_value = s\<rparr>"
  by (simp add: Phone_init_re_match re_match_phone_spec)

text \<open>
  C5 at a concrete input: \<open>1234567890\<close> followed by a newline is not of the format
  (optional \<open>+\<close>, 9 to 15 digits), yet constructing a Phone from it succeeds and
  stores the string with its newline, where the claim has \<open>ValueError\<close>: the \<open>$\<close> of
  the pattern also matches before a newline that ends the string. Without the newline
  the string is of the format and is stored as it is.
\<close>

theorem Phone_accepts_trailing_newline:
  "\<not> spec_phone_format (''1234567890'' @ [CHR 0x0A])
   \<and> spec_phone_format ''1234567890''
   \<and> Phone_init ''1234567890'' = Inr \<lparr>phone_value = ''1234567890''\<rparr>
   \<and> Phone_init (''1234567890'' @ [CHR 0x0A])
        = Inr \<lparr>phone_value = ''1234567890'' @ [CHR 0x0A]\<rparr>"
  by code_simp

subsection \<open>Rendering a birthday\<close>

text \<open>A birthday renders as day, month and year; a year below 1000 is not padded.\<close>

lemma Birthday_str_examples:
  "Birthday_str \<lparr>year = 1990, month = 6, day = 15\<rparr> = ''Birthday: 15.06.1990''"
  "Birthday_str \<lparr>year = 999, month = 1, day = 1\<rparr> = ''Birthday: 01.01.999''"
  by code_simp+

subsection \<open>Birthdays on 29 February\<close>

lemma leap_next_not_leap: "is_leap y \<Longrightarrow> \<not> is_leap (y + 1)"
  unfolding is_leap_def by presburger

lemma feb29_invalid: "\<not> is_leap y \<Longrightarrow> datetime_date y 2 29 = Inl ValueError"
  by (simp add: datetime_date_def valid_date_def days_in_month_def)

text \<open>
  C3: for a stored birthday of 29 February, \<open>days_to_birthday\<close> raises \<open>ValueError\<close>
  when the current year is not a leap year (the date of this year cannot be built), and
  also when the current year is a leap year and 29 February has passed: the next year
  is then not a leap year, and the date of the next year cannot be built.
\<close>

theorem days_to_birthday_feb29:
  assumes "birthday_value b = Some v" and "month v = 2" and "day v = 29"
  shows "(\<not> is_leap (year today) \<longrightarrow> days_to_birthday today b = Inl ValueError)
     \<and> (is_leap (year today) \<and> date_less \<lparr>year = year today, month = 2, day = 29\<rparr> today \<longrightarrow>
           \<not> is_leap (year today + 1) \<and> days_to_birthday today b = Inl ValueError)"
proof (intro conjI impI)
  assume "\<not> is_leap (year today)"
  then show "days_to_birthday today b = Inl ValueError"
    using assms by (simp add: days_to_birthday_def feb29_invalid)
next
  assume h: "is_leap (year today) \<and> date_less \<lparr>year = year today, month = 2, day = 29\<rparr> today"
  then show n: "\<not> is_leap (year today + 1)" by (simp add: leap_next_not_leap)
  show "days_to_birthday today b = Inl ValueError"
  proof (cases "datetime_date (year today) 2 29")
    case (Inl e)
    then have "e = ValueError" by (simp add: datetime_date_def Let_def split: if_splits)
    with Inl assms show ?thesis by (simp add: days_to_birthday_def)
  next
    case (Inr nb)
    then have "nb = \<lparr>year = year today, month = 2, day = 29\<rparr>"
      by (simp add: datetime_date_def Let_def split: if_splits)
    with Inr h assms feb29_invalid[OF n] show ?thesis
      by (simp add: days_to_birthday_def)
  qed
qed

theorem days_to_birthday_feb29_witness:
  "days_to_birthday \<lparr>year = 2023, month = 1, day = 10\<rparr>
      \<lparr>birthday_value = Some \<lparr>year = 2000, month = 2, day = 29\<rparr>\<rparr> = Inl ValueError
   \<and> days_to_birthday \<lparr>year = 2024, month = 3, day = 1\<rparr>
      \<lparr>birthday_value = Some \<lparr>year = 2000, month = 2, day = 29\<rparr>\<rparr> = Inl ValueError"
proof -
  have a: "\<not> is_leap (year \<lparr>year = 2023, month = 1, day = 10\<rparr>)"
    by (simp add: is_leap_def)
  have b: "is_leap (year \<lparr>year = 2024, month = 3, day = 1\<rparr>)
      \<and> date_less \<lparr>year = year \<lparr>year = 2024, month = 3, day = 1\<rparr>, month = 2, day = 29\<rparr>
           \<lparr>year = 2024, month = 3, day = 1\<rparr>"
    by (simp add: is_leap_def date_less_def)
  have v: "birthday_value \<lparr>birthday_value = Some \<lparr>year = 2000, month = 2, day = 29\<rparr>\<rparr>
      = Some \<lparr>year = 2000, month = 2, day = 29\<rparr>"
    "month \<lparr>year = 2000, month = 2, day = 29\<rparr> = 2" "day \<lparr>year = 2000, month = 2, day = 29\<rparr> = 29"
    by simp_all
  note t1 = days_to_birthday_feb29[OF v, of "\<lparr>year = 2023, month = 1, day = 10\<rparr>",
      THEN conjunct1, rule_format, OF a]
  note t2 = days_to_birthday_feb29[OF v, of "\<lparr>year = 2024, month = 3, day = 1\<rparr>",
      THEN conjunct2, rule_format, OF b, THEN conjunct2]
  from t1 t2 show ?thesis by (intro conjI)
qed

subsection \<open>The calendar\<close>

lemma days_in_month_bounds: "28 \<le> days_in_month y m \<and> days_in_month y m \<le> 31"
  by (simp add: days_in_month_def)

lemma days_before_month_split:
  assumes "1 \<le> m" and "m \<le> m'"
  shows "days_before_month y m' = days_before_month y m + (\<Sum>k\<leftarrow>[m..m' - 1]. days_in_month y k)"
proof (cases "m = m'")
  case True
  then show ?thesis by simp
next
  case False
  with assms have "[1..m' - 1] = [1..m - 1] @ [m..m' - 1]"
    by (intro upto_split1) simp_all
  then show ?thesis by (simp add: days_before_month_def)
qed

lemma days_in_month_nonneg: "0 \<le> days_in_month y m"
  by (simp add: days_in_month_def)

lemma days_before_month_nonneg: "0 \<le> days_before_month y m"
  unfolding days_before_month_def
  by (auto intro!: sum_list_nonneg simp: days_in_month_nonneg)

lemma days_before_month_next:
  assumes "1 \<le> m" and "m < m'"
  shows "days_before_month y m + days_in_month y m \<le> days_before_month y m'"
proof -
  from assms have "[m..m' - 1] = m # [m + 1..m' - 1]" by (intro upto_rec1) simp
  moreover have "0 \<le> (\<Sum>k\<leftarrow>[m + 1..m' - 1]. days_in_month y k)"
    by (auto intro!: sum_list_nonneg simp: days_in_month_nonneg)
  ultimately show ?thesis
    using days_before_month_split[of m m' y] assms by simp
qed

lemma days_before_month_13: "days_before_month y 13 = (if is_leap y then 366 else 365)"
  by (simp add: days_before_month_def days_in_month_def upto_rec1)

lemma div_pred:
  fixes y k :: int
  assumes "0 < k"
  shows "(y - 1) div k = (if y mod k = 0 then y div k - 1 else y div k)"
proof (cases "y mod k = 0")
  case True
  have "y - 1 = k * (y div k - 1) + (k - 1)"
    using True mult_div_mod_eq[of k y] by (simp add: algebra_simps)
  then have "(y - 1) div k = y div k - 1"
    by (rule int_div_pos_eq) (use assms in simp_all)
  with True show ?thesis by simp
next
  case False
  have r: "0 \<le> y mod k" "y mod k < k" using assms by simp_all
  have "y - 1 = k * (y div k) + (y mod k - 1)"
    using mult_div_mod_eq[of k y] by simp
  then have "(y - 1) div k = y div k"
    by (rule int_div_pos_eq) (use r False in simp_all)
  with False show ?thesis by simp
qed

lemma days_before_year_step:
  "days_before_year (y + 1) = days_before_year y + (if is_leap y then 366 else 365)"
proof -
  have m: "y mod 400 = 0 \<Longrightarrow> y mod 100 = 0" "y mod 100 = 0 \<Longrightarrow> y mod 4 = 0"
    by presburger+
  show ?thesis
    using m by (simp add: days_before_year_def is_leap_def Let_def div_pred algebra_simps)
qed

lemma days_before_year_mono: "y \<le> y' \<Longrightarrow> days_before_year y \<le> days_before_year y'"
proof (induction y' rule: int_ge_induct)
  case base
  show ?case by simp
next
  case (step i)
  then show ?case by (simp add: days_before_year_step)
qed

lemma day_of_year_bounds:
  assumes "valid_date t"
  shows "1 \<le> days_before_month (year t) (month t) + day t"
    and "days_before_month (year t) (month t) + day t \<le> (if is_leap (year t) then 366 else 365)"
proof -
  from assms have v: "1 \<le> month t" "month t < 13" "1 \<le> day t"
    "day t \<le> days_in_month (year t) (month t)" by (simp_all add: valid_date_def)
  from v days_before_month_nonneg[of "year t" "month t"]
  show "1 \<le> days_before_month (year t) (month t) + day t" by simp
  from days_before_month_next[OF v(1) v(2), of "year t"] v(4)
  show "days_before_month (year t) (month t) + day t \<le> (if is_leap (year t) then 366 else 365)"
    by (simp only: days_before_month_13)
qed

lemma toordinal_mono:
  assumes "valid_date a" and "valid_date b" and "date_less a b"
  shows "toordinal a < toordinal b"
proof -
  from assms(3) consider (y) "year a < year b"
    | (m) "year a = year b" "month a < month b"
    | (d) "year a = year b" "month a = month b" "day a < day b"
    unfolding date_less_def by blast
  then show ?thesis
  proof cases
    case y
    have "toordinal a \<le> days_before_year (year a + 1)"
      using day_of_year_bounds(2)[OF assms(1)]
      by (simp add: toordinal_def days_before_year_step)
    also have "\<dots> \<le> days_before_year (year b)"
      using y by (intro days_before_year_mono) simp
    also have "\<dots> < toordinal b"
      using day_of_year_bounds(1)[OF assms(2)] by (simp add: toordinal_def)
    finally show ?thesis .
  next
    case m
    from assms(1) have va: "1 \<le> month a" "day a \<le> days_in_month (year a) (month a)"
      by (simp_all add: valid_date_def)
    from assms(2) have vb: "1 \<le> day b" by (simp add: valid_date_def)
    from days_before_month_next[OF va(1) m(2), of "year a"] va(2) vb m(1)
    show ?thesis by (simp add: toordinal_def)
  next
    case d
    then show ?thesis by (simp add: toordinal_def)
  qed
qed

lemma date_trichotomy: "date_less a b \<or> date_less b a \<or> (year a = year b \<and> month a = month b \<and> day a = day b)"
  unfolding date_less_def by linarith

lemma toordinal_eq_iff:
  assumes "valid_date a" and "valid_date b"
  shows "toordinal a = toordinal b \<longleftrightarrow> year a = year b \<and> month a = month b \<and> day a = day b"
  using toordinal_mono[OF assms] toordinal_mono[OF assms(2) assms(1)] date_trichotomy[of a b]
  by (auto simp: toordinal_def)

lemma toordinal_le:
  assumes "valid_date a" and "valid_date b" and "\<not> date_less b a"
  shows "toordinal a \<le> toordinal b"
  using toordinal_mono[OF assms(1,2)] date_trichotomy[of a b] assms(3)
  by (auto simp: toordinal_def)


subsection \<open>\<open>days_to_birthday\<close> on other birthdays\<close>

text \<open>
  For a stored date other than 29 February (and a current year below 9999, the last
  year a date can have), \<open>days_to_birthday\<close> returns the day count from today to
  \<open>next_occurrence\<close>, which is a date with the stored month and day, not before today,
  and the earliest such date; the count is not negative, and is 0 exactly when today has
  the stored month and day.
\<close>

lemma regular_valid:
  assumes "valid_date v" and "\<not> (month v = 2 \<and> day v = 29)" and "1 \<le> y" and "y \<le> 9999"
  shows "valid_date \<lparr>year = y, month = month v, day = day v\<rparr>"
  using assms by (auto simp: valid_date_def days_in_month_def split: if_splits)

lemma days_to_birthday_regular:
  assumes today: "valid_date today" and v: "valid_date v" and b: "birthday_value b = Some v"
    and nf: "\<not> (month v = 2 \<and> day v = 29)" and y: "year today < 9999"
  shows "days_to_birthday today b
           = Inr (Some (toordinal (next_occurrence today v) - toordinal today))"
    and "valid_date (next_occurrence today v)"
    and "month (next_occurrence today v) = month v \<and> day (next_occurrence today v) = day v"
    and "\<not> date_less (next_occurrence today v) today"
    and "\<forall>x. valid_date x \<and> month x = month v \<and> day x = day v \<and> \<not> date_less x today
           \<longrightarrow> \<not> date_less x (next_occurrence today v)"
    and "0 \<le> toordinal (next_occurrence today v) - toordinal today"
    and "toordinal (next_occurrence today v) - toordinal today = 0
           \<longleftrightarrow> month v = month today \<and> day v = day today"
proof -
  from today have ty: "1 \<le> year today" "year today \<le> 9999" by (simp_all add: valid_date_def)
  have v1: "valid_date \<lparr>year = year today, month = month v, day = day v\<rparr>"
    using v nf ty by (intro regular_valid) simp_all
  have v2: "valid_date \<lparr>year = year today + 1, month = month v, day = day v\<rparr>"
    using v nf ty y by (intro regular_valid) simp_all
  show "days_to_birthday today b
           = Inr (Some (toordinal (next_occurrence today v) - toordinal today))"
    using b v1 v2
    by (simp add: days_to_birthday_def datetime_date_def next_occurrence_def date_diff_days_def)
  show nv: "valid_date (next_occurrence today v)"
    using v1 v2 by (simp add: next_occurrence_def)
  show "month (next_occurrence today v) = month v \<and> day (next_occurrence today v) = day v"
    by (simp add: next_occurrence_def)
  show after: "\<not> date_less (next_occurrence today v) today"
    by (simp add: next_occurrence_def date_less_def)
  show "\<forall>x. valid_date x \<and> month x = month v \<and> day x = day v \<and> \<not> date_less x today
           \<longrightarrow> \<not> date_less x (next_occurrence today v)"
    unfolding next_occurrence_def date_less_def by auto
  show "0 \<le> toordinal (next_occurrence today v) - toordinal today"
    using toordinal_le[OF today nv after] by simp
  have "toordinal (next_occurrence today v) = toordinal today
      \<longleftrightarrow> month v = month today \<and> day v = day today"
    unfolding toordinal_eq_iff[OF nv today]
    by (auto simp: next_occurrence_def date_less_def)
  then show "toordinal (next_occurrence today v) - toordinal today = 0
           \<longleftrightarrow> month v = month today \<and> day v = day today" by simp
qed

text \<open>
  C2 at a concrete input: on 15 June 2025, for a birthday stored as 29 February 1996,
  the next occurrence of the stored month and day is 29 February 2028, but
  \<open>days_to_birthday\<close> raises \<open>ValueError\<close> instead of returning a day count.
\<close>

theorem days_to_birthday_leap_day_fails:
  "valid_date \<lparr>year = 2025, month = 6, day = 15\<rparr>
   \<and> valid_date \<lparr>year = 1996, month = 2, day = 29\<rparr>
   \<and> valid_date \<lparr>year = 2028, month = 2, day = 29\<rparr>
   \<and> days_to_birthday \<lparr>year = 2025, month = 6, day = 15\<rparr>
        \<lparr>birthday_value = Some \<lparr>year = 1996, month = 2, day = 29\<rparr>\<rparr> = Inl ValueError"
  by (simp add: valid_date_def days_in_month_def is_leap_def days_to_birthday_def datetime_date_def
      date_less_def)

text \<open>The examples of the specification, with today = 10 January 2024; and no birthday.\<close>

lemma days_to_birthday_examples:
  "days_to_birthday \<lparr>year = 2024, month = 1, day = 10\<rparr>
      \<lparr>birthday_value = Some \<lparr>year = 1990, month = 1, day = 5\<rparr>\<rparr> = Inr (Some 361)"
  "days_to_birthday \<lparr>year = 2024, month = 1, day = 10\<rparr>
      \<lparr>birthday_value = Some \<lparr>year = 1990, month = 2, day = 1\<rparr>\<rparr> = Inr (Some 22)"
  "days_to_birthday \<lparr>year = 2024, month = 1, day = 10\<rparr>
      \<lparr>birthday_value = Some \<lparr>year = 1990, month = 1, day = 10\<rparr>\<rparr> = Inr (Some 0)"
  "days_to_birthday today \<lparr>birthday_value = None\<rparr> = Inr None"
  by (simp_all add: days_to_birthday_def datetime_date_def valid_date_def days_in_month_def
      is_leap_def date_less_def date_diff_days_def toordinal_def days_before_year_def
      days_before_month_def upto_rec1)

end
